theory Spec2Isabelle
  imports Main "HOL-Library.Word"
begin

section \<open>The stream adapter of \<^verbatim>\<open>src/services/geminiService.ts\<close>\<close>

text \<open>
  The adapter \<^verbatim>\<open>performSearchStream\<close> is an asynchronous generator with a single
  sequential consumer. It is embedded as a function from the environment, the query and the
  behaviour of the upstream stream to the list of items it yields, the effects it performs
  and the error it throws, if any. Its loop body becomes \<open>step\<close> on a record of the three
  local variables.
\<close>

subsection \<open>JavaScript strings\<close>

text \<open>
  A JavaScript string is a sequence of UTF-16 code units; every method the adapter calls
  (\<^verbatim>\<open>includes\<close>, \<^verbatim>\<open>split\<close>, \<^verbatim>\<open>trim\<close>, \<^verbatim>\<open>startsWith\<close>, \<^verbatim>\<open>replace\<close>) works on
  code units, and the regular expression has no \<^verbatim>\<open>u\<close> flag.
\<close>

type_synonym jsstring = "16 word list"

text \<open>
  The marker literal of lines 38 to 42 and of the regular expression of line 61: the five
  Hangul syllables U+CD94 U+CC9C U+AC80 U+C0C9 U+C5B4 and a colon.
\<close>

definition marker :: jsstring where
  "marker = [0xCD94, 0xCC9C, 0xAC80, 0xC0C9, 0xC5B4, 0x3A]"

definition newline :: "16 word" where
  "newline = 0x0A"

text \<open>
  ECMAScript \<^verbatim>\<open>LineTerminator\<close>: LF, CR, LS, PS. These are the code units at which
  \<^verbatim>\<open>^\<close> and \<^verbatim>\<open>$\<close> match under the \<^verbatim>\<open>m\<close> flag and which \<^verbatim>\<open>.\<close> does not match.
\<close>

definition isLineTerminator :: "16 word \<Rightarrow> bool" where
  "isLineTerminator c \<longleftrightarrow> c = 0x0A \<or> c = 0x0D \<or> c = 0x2028 \<or> c = 0x2029"

text \<open>
  What \<^verbatim>\<open>String.prototype.trim\<close> strips: \<^verbatim>\<open>WhiteSpace\<close> (TAB, VT, FF, ZWNBSP and the
  Unicode space separators) and \<^verbatim>\<open>LineTerminator\<close>.
\<close>

definition isWhiteSpace :: "16 word \<Rightarrow> bool" where
  "isWhiteSpace c \<longleftrightarrow>
     c = 0x09 \<or> c = 0x0B \<or> c = 0x0C \<or> c = 0x20 \<or> c = 0xA0 \<or> c = 0x1680 \<or>
     (0x2000 \<le> c \<and> c \<le> 0x200A) \<or> c = 0x202F \<or> c = 0x205F \<or> c = 0x3000 \<or>
     c = 0xFEFF \<or> isLineTerminator c"

definition trim :: "jsstring \<Rightarrow> jsstring" where
  "trim s = rev (dropWhile isWhiteSpace (rev (dropWhile isWhiteSpace s)))"

definition startsWith :: "jsstring \<Rightarrow> jsstring \<Rightarrow> bool" where
  "startsWith s p \<longleftrightarrow> take (length p) s = p"

text \<open>\<^verbatim>\<open>s.includes(p)\<close>: \<open>p\<close> occurs in \<open>s\<close> as a contiguous run.\<close>

fun includes_str :: "jsstring \<Rightarrow> jsstring \<Rightarrow> bool" where
  "includes_str [] p = (p = [])"
| "includes_str (c # cs) p = (startsWith (c # cs) p \<or> includes_str cs p)"

text \<open>
  \<^verbatim>\<open>s.split(sep)\<close> for a separator of one code unit. The empty string splits into one
  empty piece.
\<close>

fun split :: "jsstring \<Rightarrow> 16 word \<Rightarrow> jsstring list" where
  "split [] sep = [[]]"
| "split (c # cs) sep =
     (if c = sep then [] # split cs sep
      else (case split cs sep of [] \<Rightarrow> [[c]] | l # ls \<Rightarrow> (c # l) # ls))"

text \<open>
  \<^verbatim>\<open>s.replace(p, r)\<close> with a string pattern: only the first occurrence is replaced. The
  adapter's replacement is the empty string, which has no \<^verbatim>\<open>$\<close> patterns to expand.
\<close>

fun replace :: "jsstring \<Rightarrow> jsstring \<Rightarrow> jsstring \<Rightarrow> jsstring" where
  "replace [] p r = (if p = [] then r else [])"
| "replace (c # cs) p r =
     (if startsWith (c # cs) p then r @ drop (length p) (c # cs)
      else c # replace cs p r)"

text \<open>
  \<^verbatim>\<open>s.replace(/^MARKER.*$/m, "")\<close>, with the marker for \<^verbatim>\<open>MARKER\<close>. The expression is not global, so the leftmost match
  alone is replaced. \<^verbatim>\<open>^\<close> holds at the start of the input and after a line terminator
  (the flag \<open>bol\<close>); \<^verbatim>\<open>.*\<close> is greedy and consumes every code unit up to the next line
  terminator or the end, where \<^verbatim>\<open>$\<close> holds. The terminator itself is not part of the match.
\<close>

fun replaceMarkerLine :: "bool \<Rightarrow> jsstring \<Rightarrow> jsstring" where
  "replaceMarkerLine bol [] = []"
| "replaceMarkerLine bol (c # cs) =
     (if bol \<and> startsWith (c # cs) marker
      then dropWhile (\<lambda>x. \<not> isLineTerminator x) (drop (length marker) (c # cs))
      else c # replaceMarkerLine (isLineTerminator c) cs)"

subsection \<open>Insertion-ordered maps\<close>

text \<open>
  A JavaScript \<^verbatim>\<open>Map\<close> iterates in insertion order; \<^verbatim>\<open>set\<close> on a key already present
  replaces the value and keeps the key's position. \<^verbatim>\<open>new Map(entries)\<close> calls \<^verbatim>\<open>set\<close> for
  each entry in turn, \<^verbatim>\<open>values()\<close> lists the values in order. String keys are compared
  code unit by code unit.
\<close>

type_synonym ('k, 'v) jsmap = "('k \<times> 'v) list"

fun map_set :: "('k, 'v) jsmap \<Rightarrow> 'k \<Rightarrow> 'v \<Rightarrow> ('k, 'v) jsmap" where
  "map_set [] k v = [(k, v)]"
| "map_set ((k', v') # m) k v =
     (if k' = k then (k', v) # m else (k', v') # map_set m k v)"

definition new_Map :: "('k \<times> 'v) list \<Rightarrow> ('k, 'v) jsmap" where
  "new_Map entries = foldl (\<lambda>m (k, v). map_set m k v) [] entries"

definition map_values :: "('k, 'v) jsmap \<Rightarrow> 'v list" where
  "map_values m = map snd m"

subsection \<open>Data\<close>

text \<open>
  The part of an upstream chunk that the adapter reads: \<^verbatim>\<open>chunk.text\<close> and
  \<^verbatim>\<open>chunk.candidates?.[0]?.groundingMetadata?.groundingChunks\<close>, each grounding chunk with
  an optional \<^verbatim>\<open>web\<close> member. Every optional member is an \<open>option\<close>. The adapter declares
  the \<^verbatim>\<open>uri\<close> of a source as a string, so a web citation has one here; its title may be
  missing.
\<close>

record web =
  web_uri :: jsstring
  web_title :: "jsstring option"

record groundingChunk =
  web :: "web option"

record groundingMetadata =
  groundingChunks :: "groundingChunk list option"

record candidate =
  groundingMetadata :: "groundingMetadata option"

record chunk =
  chunk_text :: "jsstring option"
  candidates :: "candidate list option"

record sourceRef =
  uri :: jsstring
  title :: jsstring

text \<open>What the generator yields: a snapshot \<^verbatim>\<open>{text, suggestion, sources}\<close> or \<^verbatim>\<open>{done: true}\<close>.\<close>

datatype item =
  Snapshot (text_of: jsstring) (suggestion_of: "jsstring option") (sources_of: "sourceRef list")
| Done

text \<open>The three variables of the loop.\<close>

record state =
  fullText :: jsstring
  suggestion :: "jsstring option"
  sources :: "sourceRef list"

subsection \<open>The loop body\<close>

text \<open>\<^verbatim>\<open>chunk.text || ""\<close>\<close>

definition chunkText :: "chunk \<Rightarrow> jsstring" where
  "chunkText c = (case chunk_text c of None \<Rightarrow> [] | Some t \<Rightarrow> t)"

text \<open>
  Lines 38 to 44. \<^verbatim>\<open>!suggestion\<close> holds for \<^verbatim>\<open>undefined\<close> and for the empty string. The
  line found is never empty (its trimmed form starts with the marker), so its truthiness
  test is the test that \<^verbatim>\<open>find\<close> returned a line.
\<close>

definition extractSuggestion :: "jsstring option \<Rightarrow> jsstring \<Rightarrow> jsstring option" where
  "extractSuggestion sg ft =
     (if (sg = None \<or> sg = Some []) \<and> includes_str ft marker then
        (let lines = split ft newline in
         case find (\<lambda>line. startsWith (trim line) marker) lines of
           None \<Rightarrow> sg
         | Some suggestionLine \<Rightarrow>
             if suggestionLine \<noteq> [] \<and>
                (includes_str suggestionLine [newline] \<or> length (split ft newline) > 1)
             then Some (trim (replace suggestionLine marker []))
             else sg)
      else sg)"

text \<open>\<^verbatim>\<open>chunk.candidates?.[0]?.groundingMetadata?.groundingChunks || []\<close>\<close>

definition groundingChunksOf :: "chunk \<Rightarrow> groundingChunk list" where
  "groundingChunksOf c =
     (case candidates c of
        None \<Rightarrow> []
      | Some [] \<Rightarrow> []
      | Some (cand # _) \<Rightarrow>
          (case groundingMetadata cand of
             None \<Rightarrow> []
           | Some gm \<Rightarrow> (case groundingChunks gm of None \<Rightarrow> [] | Some gcs \<Rightarrow> gcs)))"

text \<open>\<^verbatim>\<open>{uri: c.web!.uri, title: c.web!.title || c.web!.uri}\<close>\<close>

definition toSource :: "web \<Rightarrow> sourceRef" where
  "toSource w =
     \<lparr>uri = web_uri w,
      title = (case web_title w of
                 None \<Rightarrow> web_uri w
               | Some t \<Rightarrow> if t = [] then web_uri w else t)\<rparr>"

text \<open>\<^verbatim>\<open>chunks.filter(c => c.web).map(...)\<close>\<close>

definition newSources :: "groundingChunk list \<Rightarrow> sourceRef list" where
  "newSources gcs = map toSource (List.map_filter web gcs)"

text \<open>Lines 56 and 57.\<close>

definition mergeSources :: "sourceRef list \<Rightarrow> sourceRef list \<Rightarrow> sourceRef list" where
  "mergeSources srcs new =
     (let allSources = srcs @ new
      in map_values (new_Map (map (\<lambda>s. (uri s, s)) allSources)))"

definition extractSources :: "sourceRef list \<Rightarrow> chunk \<Rightarrow> sourceRef list" where
  "extractSources srcs c =
     (let chunks = groundingChunksOf c
      in if length chunks > 0 then mergeSources srcs (newSources chunks) else srcs)"

definition step :: "state \<Rightarrow> chunk \<Rightarrow> state" where
  "step s c =
     (let ft = fullText s @ chunkText c
      in \<lparr>fullText = ft,
          suggestion = extractSuggestion (suggestion s) ft,
          sources = extractSources (sources s) c\<rparr>)"

text \<open>The object yielded at the end of the loop body.\<close>

definition snapshot :: "state \<Rightarrow> item" where
  "snapshot s = Snapshot (trim (replaceMarkerLine True (fullText s))) (suggestion s) (sources s)"

definition initial :: state where
  "initial = \<lparr>fullText = [], suggestion = None, sources = []\<rparr>"

text \<open>The \<^verbatim>\<open>for await\<close> loop: one snapshot per chunk, from the state after that chunk.\<close>

fun consume :: "state \<Rightarrow> chunk list \<Rightarrow> item list" where
  "consume s [] = []"
| "consume s (c # cs) = (let s' = step s c in snapshot s' # consume s' cs)"

subsection \<open>The generator\<close>

text \<open>
  Errors are values. The missing-credential error is the \<^verbatim>\<open>Error\<close> thrown at line 12 with
  its message; the specification calls it \<open>AuthError\<close>. A failure of the upstream service is
  whatever that service throws.
\<close>

datatype error = Error jsstring

definition AuthError :: error where
  "AuthError = Error
     [0x41, 0x50, 0x49, 0x20, 0xD0A4, 0xAC00, 0x20, 0xC124, 0xC815, 0xB418, 0xC9C0, 0x20,
      0xC54A, 0xC558, 0xC2B5, 0xB2C8, 0xB2E4, 0x2E, 0x20, 0xD658, 0xACBD, 0x20, 0xBCC0,
      0xC218, 0xB97C, 0x20, 0xD655, 0xC778, 0xD574, 0xC8FC, 0xC138, 0xC694, 0x2E]"

text \<open>
  The upstream stream delivers its chunks and then either ends or fails; a call that fails
  before the first chunk has no chunks.
\<close>

record upstream =
  delivered :: "chunk list"
  failure :: "error option"

record env =
  GEMINI_API_KEY :: "jsstring option"

text \<open>
  What a run does besides yielding: constructing the client (with the key), calling
  \<^verbatim>\<open>generateContentStream\<close> (its prompt is a fixed template around the query) and logging
  in the \<^verbatim>\<open>catch\<close> block.
\<close>

datatype effect =
  NewGoogleGenAI jsstring
| GenerateContentStream jsstring
| ConsoleError error

record run =
  emitted :: "item list"
  effects :: "effect list"
  thrown :: "error option"

definition performSearchStream :: "env \<Rightarrow> jsstring \<Rightarrow> upstream \<Rightarrow> run" where
  "performSearchStream e query up =
     (case GEMINI_API_KEY e of
        None \<Rightarrow> \<lparr>emitted = [], effects = [], thrown = Some AuthError\<rparr>
      | Some apiKey \<Rightarrow>
          if apiKey = [] then \<lparr>emitted = [], effects = [], thrown = Some AuthError\<rparr>
          else
            (let items = consume initial (delivered up)
             in case failure up of
                  None \<Rightarrow>
                    \<lparr>emitted = items @ [Done],
                     effects = [NewGoogleGenAI apiKey, GenerateContentStream query],
                     thrown = None\<rparr>
                | Some err \<Rightarrow>
                    \<lparr>emitted = items,
                     effects = [NewGoogleGenAI apiKey, GenerateContentStream query,
                                ConsoleError err],
                     thrown = Some err\<rparr>))"

subsection \<open>Calling the generator\<close>

text \<open>
  Line 9 declares an \<^verbatim>\<open>async function*\<close>. A call of such a function runs none of its body:
  it binds the arguments and returns the generator object, whatever the environment holds,
  and it cannot throw. The body starts with the consumer's first \<^verbatim>\<open>next()\<close>, and an
  exception of the body is the rejection of the promise which that \<^verbatim>\<open>next()\<close> returned.
\<close>

datatype 'a completion = Returns 'a | Throws error

datatype generator = SuspendedStart env jsstring

definition callPerformSearchStream :: "env \<Rightarrow> jsstring \<Rightarrow> generator completion" where
  "callPerformSearchStream e query = Returns (SuspendedStart e query)"

text \<open>
  How the promise of the first \<^verbatim>\<open>next()\<close> settles: with the first item the body yields,
  with the error it throws before yielding, or with the end of the generator.
\<close>

datatype settlement = Fulfilled "item option" | Rejected error

fun firstNext :: "generator \<Rightarrow> upstream \<Rightarrow> settlement" where
  "firstNext (SuspendedStart e query) up =
     (case emitted (performSearchStream e query up) of
        it # _ \<Rightarrow> Fulfilled (Some it)
      | [] \<Rightarrow>
          (case thrown (performSearchStream e query up) of
             Some err \<Rightarrow> Rejected err
           | None \<Rightarrow> Fulfilled None))"

subsection \<open>Notions of the specification\<close>

text \<open>
  The elements of a list in the order of their first appearance, each once: what the
  specification calls a first-appearance-preserving merge.
\<close>

fun firstAppearance :: "'a list \<Rightarrow> 'a list" where
  "firstAppearance [] = []"
| "firstAppearance (x # xs) = x # filter (\<lambda>y. y \<noteq> x) (firstAppearance xs)"

text \<open>The most recent citation of a uri among the citations so far.\<close>

definition mostRecent :: "sourceRef list \<Rightarrow> jsstring \<Rightarrow> sourceRef option" where
  "mostRecent cited u = find (\<lambda>s. uri s = u) (rev cited)"

text \<open>Every source the chunks cite, in stream order, duplicates included.\<close>

definition cited :: "chunk list \<Rightarrow> sourceRef list" where
  "cited cs = concat (map (\<lambda>c. newSources (groundingChunksOf c)) cs)"

text \<open>The loop variables after the chunks \<open>cs\<close> of a stream.\<close>

definition stateAfter :: "chunk list \<Rightarrow> state" where
  "stateAfter cs = foldl step initial cs"

text \<open>\<^verbatim>\<open>allSources.map(s => [s.uri, s])\<close>\<close>

definition entries :: "sourceRef list \<Rightarrow> (jsstring, sourceRef) jsmap" where
  "entries srcs = map (\<lambda>s. (uri s, s)) srcs"

text \<open>
  The lines of a buffer as the regular expression sees them: each line with its terminator
  attached, the last line without one. Their concatenation is the buffer.
\<close>

fun lineSegments :: "jsstring \<Rightarrow> jsstring list" where
  "lineSegments [] = [[]]"
| "lineSegments (c # cs) =
     (if isLineTerminator c then [c] # lineSegments cs
      else (case lineSegments cs of [] \<Rightarrow> [[c]] | l # ls \<Rightarrow> (c # l) # ls))"

text \<open>
  The first line that starts with the marker loses its content and keeps its terminator;
  every other line stays.
\<close>

fun blankFirstMarkerLine :: "jsstring list \<Rightarrow> jsstring list" where
  "blankFirstMarkerLine [] = []"
| "blankFirstMarkerLine (l # ls) =
     (if startsWith l marker then dropWhile (\<lambda>x. \<not> isLineTerminator x) l # ls
      else l # blankFirstMarkerLine ls)"

text \<open>
  The reading of the specification in which every line that starts with the marker is
  removed before trimming.
\<close>

definition everyMarkerLineRemoved :: "jsstring \<Rightarrow> jsstring" where
  "everyMarkerLineRemoved buffer =
     trim (concat (filter (\<lambda>l. \<not> startsWith l marker) (lineSegments buffer)))"

subsection \<open>Example streams\<close>

text \<open>Concrete environments, chunks and streams on which the theorems are instantiated.\<close>

definition envWithKey :: env where
  "envWithKey = \<lparr>GEMINI_API_KEY = Some [0x6B]\<rparr>"

definition envWithoutKey :: env where
  "envWithoutKey = \<lparr>GEMINI_API_KEY = None\<rparr>"

definition textChunk :: "jsstring \<Rightarrow> chunk" where
  "textChunk t = \<lparr>chunk_text = Some t, candidates = None\<rparr>"

definition citingChunk :: "jsstring \<Rightarrow> jsstring \<Rightarrow> chunk" where
  "citingChunk u t =
     \<lparr>chunk_text = None,
      candidates = Some [\<lparr>groundingMetadata = Some \<lparr>groundingChunks =
        Some [\<lparr>web = Some \<lparr>web_uri = u, web_title = Some t\<rparr>\<rparr>]\<rparr>\<rparr>]\<rparr>"

definition endingAfter :: "chunk list \<Rightarrow> upstream" where
  "endingAfter cs = \<lparr>delivered = cs, failure = None\<rparr>"

text \<open>
  The scenario of the specification: a chunk text made of the marker, a space, the three
  syllables U+ACE0 U+C591 U+C774, a line feed and a sentence of twelve code units; the
  sentence; and the three syllables.
\<close>

definition catText :: jsstring where
  "catText = [0xCD94, 0xCC9C, 0xAC80, 0xC0C9, 0xC5B4, 0x3A, 0x20, 0xACE0, 0xC591, 0xC774, 0x0A,
              0xACE0, 0xC591, 0xC774, 0xB294, 0x20, 0xD3EC, 0xC720, 0xB958, 0xC785, 0xB2C8,
              0xB2E4, 0x2E]"

definition catSummary :: jsstring where
  "catSummary = [0xACE0, 0xC591, 0xC774, 0xB294, 0x20, 0xD3EC, 0xC720, 0xB958, 0xC785, 0xB2C8,
                 0xB2E4, 0x2E]"

definition catSuggestion :: jsstring where
  "catSuggestion = [0xACE0, 0xC591, 0xC774]"

section \<open>Auxiliary facts\<close>

lemma set_firstAppearance: "set (firstAppearance xs) = set xs"
  by (induction xs) auto

lemma distinct_firstAppearance: "distinct (firstAppearance xs)"
  by (induction xs) (auto simp: set_firstAppearance)

lemma filter_firstAppearance:
  "filter P (firstAppearance xs) = firstAppearance (filter P xs)"
proof (induction xs)
  case Nil
  show ?case by simp
next
  case (Cons x xs)
  show ?case
  proof (cases "P x")
    case True
    have "filter P (filter (\<lambda>y. y \<noteq> x) (firstAppearance xs))
          = filter (\<lambda>y. y \<noteq> x) (filter P (firstAppearance xs))"
      by (simp add: conj_commute)
    with True Cons show ?thesis by simp
  next
    case False
    have "filter P (filter (\<lambda>y. y \<noteq> x) (firstAppearance xs)) = filter P (firstAppearance xs)"
      using False by (auto intro: filter_cong)
    with False Cons show ?thesis by simp
  qed
qed

lemma firstAppearance_seen:
  "x \<in> set ks \<Longrightarrow> firstAppearance (ks @ x # xs) = firstAppearance (ks @ xs)"
proof (induction ks)
  case Nil
  then show ?case by simp
next
  case (Cons k ks)
  show ?case
  proof (cases "k = x")
    case True
    have "filter (\<lambda>y. y \<noteq> x) (firstAppearance (ks @ x # xs))
          = filter (\<lambda>y. y \<noteq> x) (firstAppearance (ks @ xs))"
      by (simp add: filter_firstAppearance)
    with True show ?thesis by simp
  next
    case False
    with Cons show ?thesis by simp
  qed
qed

lemma firstAppearance_distinct: "distinct xs \<Longrightarrow> firstAppearance xs = xs"
  by (induction xs) (auto simp: filter_id_conv)

lemma keys_map_set:
  "map fst (map_set m k v) = (if k \<in> set (map fst m) then map fst m else map fst m @ [k])"
  by (induction m) force+

lemma map_of_map_set: "map_of (map_set m k v) = (map_of m)(k \<mapsto> v)"
  by (induction m) (auto simp: fun_eq_iff)

lemma distinct_map_set: "distinct (map fst m) \<Longrightarrow> distinct (map fst (map_set m k v))"
  by (simp add: keys_map_set)

lemma keys_foldl_map_set:
  "distinct (map fst m) \<Longrightarrow>
   map fst (foldl (\<lambda>m (k, v). map_set m k v) m es) = firstAppearance (map fst m @ map fst es)"
proof (induction es arbitrary: m)
  case Nil
  then show ?case by (simp add: firstAppearance_distinct)
next
  case (Cons e es)
  obtain k v where e: "e = (k, v)" by (cases e)
  have d: "distinct (map fst (map_set m k v))" using Cons.prems by (rule distinct_map_set)
  show ?case
  proof (cases "k \<in> set (map fst m)")
    case True
    then show ?thesis
      using Cons.IH [OF d] by (simp add: e keys_map_set firstAppearance_seen)
  next
    case False
    then show ?thesis
      using Cons.IH [OF d] by (simp add: e keys_map_set)
  qed
qed

lemma map_of_foldl_map_set:
  "map_of (foldl (\<lambda>m (k, v). map_set m k v) m es) = map_of (rev es @ m)"
proof (induction es arbitrary: m)
  case Nil
  show ?case by simp
next
  case (Cons e es)
  obtain k v where e: "e = (k, v)" by (cases e)
  show ?case
    by (simp add: e Cons.IH map_of_map_set map_add_def fun_eq_iff split: option.splits)
qed

lemma keys_new_Map: "map fst (new_Map es) = firstAppearance (map fst es)"
  using keys_foldl_map_set [of "[]" es] by (simp add: new_Map_def)

lemma map_of_new_Map: "map_of (new_Map es) = map_of (rev es)"
  using map_of_foldl_map_set [of "[]" es] by (simp add: new_Map_def)

lemma distinct_new_Map: "distinct (map fst (new_Map es))"
  by (simp add: keys_new_Map distinct_firstAppearance)

lemma foldl_map_set_distinct:
  "distinct (map fst (a @ m)) \<Longrightarrow> foldl (\<lambda>m (k, v). map_set m k v) a m = a @ m"
proof (induction m arbitrary: a)
  case Nil
  show ?case by simp
next
  case (Cons e m)
  obtain k v where e: "e = (k, v)" by (cases e)
  have "k \<notin> set (map fst a)" using Cons.prems by (auto simp: e)
  then have s: "map_set a k v = a @ [(k, v)]"
    by (induction a) auto
  show ?case using Cons.IH [of "a @ [(k, v)]"] Cons.prems by (simp add: e s)
qed

lemma new_Map_distinct: "distinct (map fst m) \<Longrightarrow> new_Map m = m"
  using foldl_map_set_distinct [of "[]" m] by (simp add: new_Map_def)

lemma new_Map_append:
  "new_Map (a @ b) = foldl (\<lambda>m (k, v). map_set m k v) (new_Map a) b"
  by (simp add: new_Map_def)

lemma new_Map_merge: "new_Map (new_Map a @ b) = new_Map (a @ b)"
  by (simp add: new_Map_append new_Map_distinct distinct_new_Map)

lemma set_map_set: "set (map_set m k v) \<subseteq> insert (k, v) (set m)"
  by (induction m) (auto split: if_splits)

lemma set_foldl_map_set:
  "set (foldl (\<lambda>m (k, v). map_set m k v) m es) \<subseteq> set m \<union> set es"
proof (induction es arbitrary: m)
  case Nil
  show ?case by simp
next
  case (Cons e es)
  obtain k v where e: "e = (k, v)" by (cases e)
  show ?case using Cons.IH [of "map_set m k v"] set_map_set [of m k v]
    by (auto simp: e)
qed

lemma set_new_Map: "set (new_Map es) \<subseteq> set es"
  using set_foldl_map_set [of "[]" es] by (simp add: new_Map_def)

lemma entries_map_values: "set m \<subseteq> set (entries xs) \<Longrightarrow> entries (map_values m) = m"
  by (induction m) (auto simp: entries_def map_values_def)

lemma entries_values_new_Map: "entries (map_values (new_Map (entries xs))) = new_Map (entries xs)"
  by (rule entries_map_values) (rule set_new_Map)

lemma map_of_entries: "map_of (entries xs) u = find (\<lambda>s. uri s = u) xs"
  by (induction xs) (auto simp: entries_def)

lemma uri_map_values: "set m \<subseteq> set (entries xs) \<Longrightarrow> map uri (map_values m) = map fst m"
  by (induction m) (auto simp: entries_def map_values_def)

lemma mergeSources_eq: "mergeSources srcs new = map_values (new_Map (entries (srcs @ new)))"
  by (simp add: mergeSources_def entries_def)

lemma uri_mergeSources:
  "map uri (mergeSources srcs new) = firstAppearance (map uri (srcs @ new))"
proof -
  have "map uri (mergeSources srcs new) = map fst (new_Map (entries (srcs @ new)))"
    unfolding mergeSources_eq by (rule uri_map_values) (rule set_new_Map)
  also have "\<dots> = firstAppearance (map fst (entries (srcs @ new)))"
    by (rule keys_new_Map)
  also have "map fst (entries (srcs @ new)) = map uri (srcs @ new)"
    by (simp add: entries_def comp_def)
  finally show ?thesis .
qed

lemma entries_append: "entries (a @ b) = entries a @ entries b"
  by (simp add: entries_def)

lemma mergeSources_merged:
  "mergeSources (mergeSources [] a) b = mergeSources [] (a @ b)"
proof -
  have "mergeSources (mergeSources [] a) b
        = map_values (new_Map (entries (map_values (new_Map (entries a))) @ entries b))"
    by (simp only: mergeSources_eq entries_append append_Nil)
  also have "\<dots> = map_values (new_Map (new_Map (entries a) @ entries b))"
    by (simp only: entries_values_new_Map)
  also have "\<dots> = map_values (new_Map (entries a @ entries b))"
    by (simp only: new_Map_merge)
  also have "\<dots> = mergeSources [] (a @ b)"
    by (simp only: mergeSources_eq entries_append append_Nil)
  finally show ?thesis .
qed

lemma mergeSources_Nil: "mergeSources [] [] = []"
  by (simp add: mergeSources_def new_Map_def map_values_def)

lemma newSources_Nil: "newSources [] = []"
  by (simp add: newSources_def)

lemma cited_snoc: "cited (cs @ [c]) = cited cs @ newSources (groundingChunksOf c)"
  by (simp add: cited_def)

lemma stateAfter_snoc: "stateAfter (cs @ [c]) = step (stateAfter cs) c"
  by (simp add: stateAfter_def)

lemma stateAfter_append: "stateAfter (a @ b) = foldl step (stateAfter a) b"
  by (simp add: stateAfter_def)

lemma sources_step: "sources (step s c) = extractSources (sources s) c"
  by (simp add: step_def Let_def)

lemma suggestion_step:
  "suggestion (step s c) = extractSuggestion (suggestion s) (fullText s @ chunkText c)"
  by (simp add: step_def Let_def)

lemma fullText_step: "fullText (step s c) = fullText s @ chunkText c"
  by (simp add: step_def Let_def)

text \<open>Merging chunk by chunk gives the same list as one merge of everything cited so far.\<close>

lemma sources_stateAfter: "sources (stateAfter cs) = mergeSources [] (cited cs)"
proof (induction cs rule: rev_induct)
  case Nil
  show ?case by (simp add: stateAfter_def initial_def cited_def mergeSources_Nil)
next
  case (snoc c cs)
  show ?case
  proof (cases "groundingChunksOf c = []")
    case True
    then show ?thesis
      using snoc
      by (simp add: stateAfter_snoc sources_step extractSources_def cited_snoc newSources_Nil)
  next
    case False
    then show ?thesis
      using snoc
      by (simp add: stateAfter_snoc sources_step extractSources_def cited_snoc
          mergeSources_merged)
  qed
qed

lemma fullText_stateAfter: "fullText (stateAfter cs) = concat (map chunkText cs)"
  by (induction cs rule: rev_induct)
     (simp_all add: stateAfter_snoc fullText_step, simp add: stateAfter_def initial_def)

lemma length_consume: "length (consume s cs) = length cs"
  by (induction cs arbitrary: s) (simp_all add: Let_def)

lemma consume_nth:
  "i < length cs \<Longrightarrow> consume s cs ! i = snapshot (foldl step s (take (Suc i) cs))"
proof (induction cs arbitrary: s i)
  case Nil
  then show ?case by simp
next
  case (Cons c cs)
  then show ?case by (cases i) (simp_all add: Let_def)
qed

lemma Done_notin_consume: "Done \<notin> set (consume s cs)"
  by (induction cs arbitrary: s) (simp_all add: Let_def snapshot_def)

lemma emitted_performSearchStream:
  "GEMINI_API_KEY e = Some k \<Longrightarrow> k \<noteq> [] \<Longrightarrow>
   emitted (performSearchStream e q up) =
     consume initial (delivered up) @ (case failure up of None \<Rightarrow> [Done] | Some err \<Rightarrow> [])"
  by (simp add: performSearchStream_def Let_def split: option.splits)

lemma emitted_nth:
  assumes "GEMINI_API_KEY e = Some k" "k \<noteq> []" "i < length (delivered up)"
  shows "emitted (performSearchStream e q up) ! i = snapshot (stateAfter (take (Suc i) (delivered up)))"
  using assms
  by (simp add: emitted_performSearchStream nth_append length_consume consume_nth stateAfter_def)

lemma emitted_snapshot:
  assumes "Snapshot t sg srcs \<in> set (emitted (performSearchStream e q up))"
  shows "\<exists>i < length (delivered up).
           Snapshot t sg srcs = snapshot (stateAfter (take (Suc i) (delivered up)))"
proof -
  have "Snapshot t sg srcs \<in> set (consume initial (delivered up))"
    using assms by (auto simp: performSearchStream_def Let_def split: option.splits if_splits)
  then obtain i where "i < length (delivered up)" "consume initial (delivered up) ! i = Snapshot t sg srcs"
    by (auto simp: in_set_conv_nth length_consume)
  then show ?thesis
    by (auto simp: consume_nth stateAfter_def)
qed

lemma lineSegments_nonempty: "lineSegments s \<noteq> []"
  by (induction s) (auto split: list.splits)

lemma lineSegments_Cons:
  "lineSegments (c # cs) =
     (if isLineTerminator c then [c] # lineSegments cs
      else (c # hd (lineSegments cs)) # tl (lineSegments cs))"
  using lineSegments_nonempty [of cs] by (cases "lineSegments cs") simp_all

lemma concat_lineSegments: "concat (lineSegments s) = s"
proof (induction s)
  case Nil
  show ?case by simp
next
  case (Cons c cs)
  have "hd (lineSegments cs) @ concat (tl (lineSegments cs)) = concat (lineSegments cs)"
    using lineSegments_nonempty [of cs] by (cases "lineSegments cs") simp_all
  with Cons show ?case by (simp add: lineSegments_Cons del: lineSegments.simps)
qed

lemma hd_lineSegments:
  "hd (lineSegments s) =
     takeWhile (\<lambda>x. \<not> isLineTerminator x) s @ take 1 (dropWhile (\<lambda>x. \<not> isLineTerminator x) s)"
  by (induction s) (simp_all add: lineSegments_Cons del: lineSegments.simps(2))

lemma concat_tl_lineSegments:
  "concat (tl (lineSegments s)) = drop 1 (dropWhile (\<lambda>x. \<not> isLineTerminator x) s)"
  by (induction s) (simp_all add: lineSegments_Cons concat_lineSegments del: lineSegments.simps(2))

lemma dropWhile_hd_lineSegments:
  "dropWhile (\<lambda>x. \<not> isLineTerminator x) (hd (lineSegments s)) =
     take 1 (dropWhile (\<lambda>x. \<not> isLineTerminator x) s)"
  by (induction s) (simp_all add: lineSegments_Cons del: lineSegments.simps(2))

lemma startsWith_iff: "startsWith s p \<longleftrightarrow> (\<exists>r. s = p @ r)"
  unfolding startsWith_def
  by (metis append_eq_conv_conj append_take_drop_id)

lemma marker_no_terminator: "x \<in> set marker \<Longrightarrow> \<not> isLineTerminator x"
  by (auto simp: marker_def isLineTerminator_def)

lemma startsWith_hd_lineSegments:
  "startsWith (hd (lineSegments s)) marker \<longleftrightarrow> startsWith s marker"
proof
  assume "startsWith (hd (lineSegments s)) marker"
  then obtain r where "hd (lineSegments s) = marker @ r" by (auto simp: startsWith_iff)
  moreover have "s = hd (lineSegments s) @ concat (tl (lineSegments s))"
    using lineSegments_nonempty [of s] concat_lineSegments [of s]
    by (cases "lineSegments s") simp_all
  ultimately show "startsWith s marker" by (auto simp: startsWith_iff)
next
  assume "startsWith s marker"
  then obtain r where s: "s = marker @ r" by (auto simp: startsWith_iff)
  have "takeWhile (\<lambda>x. \<not> isLineTerminator x) (marker @ r)
        = marker @ takeWhile (\<lambda>x. \<not> isLineTerminator x) r"
    by (rule takeWhile_append2) (rule marker_no_terminator)
  then show "startsWith (hd (lineSegments s)) marker"
    by (simp add: hd_lineSegments s startsWith_iff)
qed

lemma dropWhile_after_marker:
  assumes "startsWith s marker"
  shows "dropWhile (\<lambda>x. \<not> isLineTerminator x) (drop (length marker) s) =
         dropWhile (\<lambda>x. \<not> isLineTerminator x) s"
proof -
  from assms obtain r where s: "s = marker @ r" by (auto simp: startsWith_iff)
  have "dropWhile (\<lambda>x. \<not> isLineTerminator x) (marker @ r)
        = dropWhile (\<lambda>x. \<not> isLineTerminator x) r"
    by (rule dropWhile_append2) (rule marker_no_terminator)
  then show ?thesis by (simp add: s)
qed

lemma replaceMarkerLine_lines:
  "replaceMarkerLine True s = concat (blankFirstMarkerLine (lineSegments s)) \<and>
   replaceMarkerLine False s =
     hd (lineSegments s) @ concat (blankFirstMarkerLine (tl (lineSegments s)))"
proof (induction s)
  case Nil
  show ?case by (simp add: startsWith_def marker_def)
next
  case (Cons c cs)
  obtain L Ls where segs: "lineSegments (c # cs) = L # Ls"
    using lineSegments_nonempty [of "c # cs"] by (cases "lineSegments (c # cs)") auto
  have L: "L = (if isLineTerminator c then [c] else c # hd (lineSegments cs))"
    and Ls: "Ls = (if isLineTerminator c then lineSegments cs else tl (lineSegments cs))"
    using segs by (auto simp: lineSegments_Cons simp del: lineSegments.simps split: if_splits)
  have cont: "c # replaceMarkerLine (isLineTerminator c) cs =
              L @ concat (blankFirstMarkerLine Ls)"
    using Cons by (simp add: L Ls)
  have hdm: "startsWith L marker \<longleftrightarrow> startsWith (c # cs) marker"
    using startsWith_hd_lineSegments [of "c # cs"] by (simp only: segs list.sel)
  have dw: "dropWhile (\<lambda>x. \<not> isLineTerminator x) L =
            take 1 (dropWhile (\<lambda>x. \<not> isLineTerminator x) (c # cs))"
    using dropWhile_hd_lineSegments [of "c # cs"] by (simp only: segs list.sel)
  have ct: "concat Ls = drop 1 (dropWhile (\<lambda>x. \<not> isLineTerminator x) (c # cs))"
    using concat_tl_lineSegments [of "c # cs"] by (simp only: segs list.sel)
  have f: "replaceMarkerLine False (c # cs) = L @ concat (blankFirstMarkerLine Ls)"
    using cont by simp
  have t: "replaceMarkerLine True (c # cs) = concat (blankFirstMarkerLine (L # Ls))"
  proof (cases "startsWith (c # cs) marker")
    case True
    have "replaceMarkerLine True (c # cs) = dropWhile (\<lambda>x. \<not> isLineTerminator x) (c # cs)"
      using True dropWhile_after_marker [OF True] by simp
    also have "\<dots> = take 1 (dropWhile (\<lambda>x. \<not> isLineTerminator x) (c # cs))
                    @ drop 1 (dropWhile (\<lambda>x. \<not> isLineTerminator x) (c # cs))"
      by (simp only: append_take_drop_id)
    also have "\<dots> = dropWhile (\<lambda>x. \<not> isLineTerminator x) L @ concat Ls"
      by (simp only: dw ct)
    also have "\<dots> = concat (blankFirstMarkerLine (L # Ls))"
      using True hdm by simp
    finally show ?thesis .
  next
    case False
    then have "concat (blankFirstMarkerLine (L # Ls)) = L @ concat (blankFirstMarkerLine Ls)"
      using hdm by simp
    with False cont show ?thesis by simp
  qed
  from t f show ?case by (simp only: segs list.sel)
qed

lemma replaceMarkerLine_eq:
  "replaceMarkerLine True s = concat (blankFirstMarkerLine (lineSegments s))"
  using replaceMarkerLine_lines [of s] by blast

lemma groundingChunksOf_textChunk: "groundingChunksOf (textChunk t) = []"
  by (simp add: groundingChunksOf_def textChunk_def)

lemma groundingChunksOf_citingChunk:
  "groundingChunksOf (citingChunk u t) = [\<lparr>web = Some \<lparr>web_uri = u, web_title = Some t\<rparr>\<rparr>]"
  by (simp add: groundingChunksOf_def citingChunk_def)

lemma newSources_citingChunk:
  "t \<noteq> [] \<Longrightarrow> newSources (groundingChunksOf (citingChunk u t)) = [\<lparr>uri = u, title = t\<rparr>]"
  by (simp add: groundingChunksOf_citingChunk newSources_def List.map_filter_simps toSource_def)

lemma sources_of_snapshot: "sources_of (snapshot s) = sources s"
  by (simp add: snapshot_def)

lemma suggestion_of_snapshot: "suggestion_of (snapshot s) = suggestion s"
  by (simp add: snapshot_def)

lemma text_of_snapshot: "text_of (snapshot s) = trim (replaceMarkerLine True (fullText s))"
  by (simp add: snapshot_def)

lemma cited_append: "cited (a @ b) = cited a @ cited b"
  by (simp add: cited_def)

lemma mostRecent_mergeSources:
  assumes "s \<in> set (mergeSources [] all)"
  shows "mostRecent all (uri s) = Some s"
proof -
  let ?M = "new_Map (entries all)"
  from assms obtain k where k: "(k, s) \<in> set ?M"
    by (auto simp: mergeSources_eq map_values_def)
  then have "(k, s) \<in> set (entries all)" using set_new_Map by blast
  then have ku: "k = uri s" by (auto simp: entries_def)
  have "map_of ?M k = Some s"
    using k distinct_new_Map [of "entries all"] by simp
  then have "map_of (rev (entries all)) (uri s) = Some s"
    by (simp add: map_of_new_Map ku)
  moreover have "rev (entries all) = entries (rev all)"
    by (simp add: entries_def rev_map)
  ultimately show ?thesis by (simp add: mostRecent_def map_of_entries)
qed

lemma extractSuggestion_kept: "x \<noteq> [] \<Longrightarrow> extractSuggestion (Some x) ft = Some x"
  by (simp add: extractSuggestion_def)

lemma extractSuggestion_defined: "sg \<noteq> None \<Longrightarrow> extractSuggestion sg ft \<noteq> None"
  by (auto simp: extractSuggestion_def Let_def split: option.splits)

lemma suggestion_foldl_kept:
  "suggestion s = Some x \<Longrightarrow> x \<noteq> [] \<Longrightarrow> suggestion (foldl step s cs) = Some x"
  by (induction cs arbitrary: s) (simp_all add: suggestion_step extractSuggestion_kept)

lemma suggestion_foldl_defined:
  "suggestion s \<noteq> None \<Longrightarrow> suggestion (foldl step s cs) \<noteq> None"
proof (induction cs arbitrary: s)
  case Nil
  then show ?case by simp
next
  case (Cons c cs)
  have "suggestion (step s c) \<noteq> None"
    unfolding suggestion_step using Cons.prems by (rule extractSuggestion_defined)
  then have "suggestion (foldl step (step s c) cs) \<noteq> None" by (rule Cons.IH)
  then show ?case by simp
qed

lemma take_Suc_le:
  assumes "i \<le> j"
  shows "take (Suc j) cs = take (Suc i) cs @ drop (Suc i) (take (Suc j) cs)"
proof -
  have "take (Suc i) (take (Suc j) cs) = take (Suc i) cs"
    using assms by (simp add: min_def)
  then show ?thesis
    by (metis append_take_drop_id)
qed

section \<open>The claims\<close>

text \<open>
  Claim C1. For every upstream stream, the sources list of every snapshot that
  \<open>performSearchStream\<close> emits, the final one included, has no two entries with the same
  uri.
\<close>

theorem sources_uri_distinct:
  assumes "Snapshot t sg srcs \<in> set (emitted (performSearchStream e q up))"
  shows "distinct (map uri srcs)"
proof -
  from emitted_snapshot [OF assms] obtain i where
    "Snapshot t sg srcs = snapshot (stateAfter (take (Suc i) (delivered up)))" by blast
  then have "srcs = sources (stateAfter (take (Suc i) (delivered up)))"
    by (simp add: snapshot_def)
  then show ?thesis
    by (simp only: sources_stateAfter uri_mergeSources distinct_firstAppearance)
qed

theorem sources_uri_distinct_witness:
  "Snapshot [] None [\<lparr>uri = [0x75], title = [0x42]\<rparr>]
     \<in> set (emitted (performSearchStream envWithKey [0x71]
               (endingAfter [citingChunk [0x75] [0x41], citingChunk [0x75] [0x42]])))
   \<and> distinct (map uri [\<lparr>uri = [0x75], title = [0x42]\<rparr>])"
proof -
  have h: "Snapshot [] None [\<lparr>uri = [0x75], title = [0x42]\<rparr>]
     \<in> set (emitted (performSearchStream envWithKey [0x71]
               (endingAfter [citingChunk [0x75] [0x41], citingChunk [0x75] [0x42]])))"
    by code_simp
  from h sources_uri_distinct [OF h] show ?thesis by simp
qed

text \<open>
  Claim C3 as stated fails. With no API key in the environment the call of
  \<open>performSearchStream\<close> does not fail synchronously: it returns the generator object and
  throws nothing.
\<close>

theorem missing_credential_call_counterexample:
  "callPerformSearchStream envWithoutKey [0x71] \<noteq> Throws AuthError"
  by (simp add: callPerformSearchStream_def)

text \<open>
  Claim C3, amended. When the environment has no API key (the variable is undefined, or
  empty, which the test \<^verbatim>\<open>!apiKey\<close> treats alike), the call of \<open>performSearchStream\<close>
  returns a generator without throwing, and the first \<^verbatim>\<open>next()\<close> of that generator is
  rejected with the missing-credential error. The run yields no item and performs no effect,
  so the client is never constructed and the upstream service is never called.
\<close>

theorem missing_credential_rejects_first_next:
  assumes "GEMINI_API_KEY e = None \<or> GEMINI_API_KEY e = Some []"
  shows "callPerformSearchStream e q = Returns (SuspendedStart e q) \<and>
         firstNext (SuspendedStart e q) up = Rejected AuthError \<and>
         performSearchStream e q up = \<lparr>emitted = [], effects = [], thrown = Some AuthError\<rparr>"
proof -
  have r: "performSearchStream e q up = \<lparr>emitted = [], effects = [], thrown = Some AuthError\<rparr>"
    using assms by (auto simp: performSearchStream_def)
  have "firstNext (SuspendedStart e q) up = Rejected AuthError"
    by (simp add: r)
  with r show ?thesis by (simp add: callPerformSearchStream_def)
qed

theorem missing_credential_rejects_first_next_witness:
  "(GEMINI_API_KEY envWithoutKey = None \<or> GEMINI_API_KEY envWithoutKey = Some []) \<and>
   callPerformSearchStream envWithoutKey [0x71] = Returns (SuspendedStart envWithoutKey [0x71]) \<and>
   firstNext (SuspendedStart envWithoutKey [0x71]) (endingAfter [textChunk catText])
     = Rejected AuthError \<and>
   performSearchStream envWithoutKey [0x71] (endingAfter [textChunk catText])
     = \<lparr>emitted = [], effects = [], thrown = Some AuthError\<rparr>"
proof -
  have h: "GEMINI_API_KEY envWithoutKey = None \<or> GEMINI_API_KEY envWithoutKey = Some []"
    by (simp add: envWithoutKey_def)
  from h missing_credential_rejects_first_next [OF h] show ?thesis by simp
qed

text \<open>
  Claim C4. With a credential and an upstream stream of \<open>n\<close> chunks that ends normally, the
  generator yields \<open>n + 1\<close> items: the \<open>i\<close>-th is the snapshot of the state after chunk
  \<open>i\<close>, none of these is the terminal marker, and the last item is the terminal marker.
\<close>

theorem terminal_marker_last:
  assumes "GEMINI_API_KEY e = Some k" and "k \<noteq> []" and "failure up = None"
  shows "length (emitted (performSearchStream e q up)) = length (delivered up) + 1 \<and>
         last (emitted (performSearchStream e q up)) = Done \<and>
         (\<forall>i < length (delivered up).
            emitted (performSearchStream e q up) ! i =
              snapshot (stateAfter (take (Suc i) (delivered up))) \<and>
            emitted (performSearchStream e q up) ! i \<noteq> Done)"
proof -
  have out: "emitted (performSearchStream e q up) = consume initial (delivered up) @ [Done]"
    using assms by (simp add: emitted_performSearchStream)
  have "length (emitted (performSearchStream e q up)) = length (delivered up) + 1"
    by (simp add: out length_consume)
  moreover have "last (emitted (performSearchStream e q up)) = Done"
    by (simp add: out)
  moreover have "emitted (performSearchStream e q up) ! i =
                   snapshot (stateAfter (take (Suc i) (delivered up))) \<and>
                 emitted (performSearchStream e q up) ! i \<noteq> Done"
    if "i < length (delivered up)" for i
    using that emitted_nth [OF assms(1,2) that, of q] by (simp add: snapshot_def)
  ultimately show ?thesis by blast
qed

theorem terminal_marker_last_witness:
  "GEMINI_API_KEY envWithKey = Some [0x6B] \<and> [0x6B :: 16 word] \<noteq> [] \<and>
   failure (endingAfter [textChunk catText, textChunk [0x61]]) = None \<and>
   length (emitted (performSearchStream envWithKey [0x71]
             (endingAfter [textChunk catText, textChunk [0x61]]))) = 3 \<and>
   last (emitted (performSearchStream envWithKey [0x71]
             (endingAfter [textChunk catText, textChunk [0x61]]))) = Done"
proof -
  have h1: "GEMINI_API_KEY envWithKey = Some [0x6B]" by (simp add: envWithKey_def)
  have h2: "[0x6B :: 16 word] \<noteq> []" by simp
  have h3: "failure (endingAfter [textChunk catText, textChunk [0x61]]) = None"
    by (simp add: endingAfter_def)
  from h1 h2 h3 terminal_marker_last [OF h1 h2 h3, of "[0x71]"] show ?thesis
    by (simp add: endingAfter_def)
qed

text \<open>
  Claim C6. A stream of one chunk, whose text is the marker, a space, the word of three
  syllables U+ACE0 U+C591 U+C774, a line feed and the summary sentence, and which has no
  grounding chunks, yields exactly the snapshot with the summary sentence as text, the word
  as suggestion and no sources, followed by the terminal marker.
\<close>

theorem cat_scenario:
  assumes "GEMINI_API_KEY e = Some k" and "k \<noteq> []"
    and "delivered up = [c]" and "failure up = None"
    and "chunk_text c = Some catText" and "groundingChunksOf c = []"
  shows "emitted (performSearchStream e q up) = [Snapshot catSummary (Some catSuggestion) [], Done]"
proof -
  have ft: "fullText (step initial c) = catText"
    using assms(5) by (simp add: fullText_step chunkText_def initial_def)
  have sg: "extractSuggestion None catText = Some catSuggestion"
    by code_simp
  have tx: "trim (replaceMarkerLine True catText) = catSummary"
    by code_simp
  have "snapshot (step initial c) = Snapshot catSummary (Some catSuggestion) []"
    using assms(5,6) sg tx
    by (simp add: snapshot_def step_def Let_def chunkText_def initial_def extractSources_def)
  then show ?thesis
    using assms(1-4) by (simp add: emitted_performSearchStream Let_def)
qed

theorem cat_scenario_witness:
  "GEMINI_API_KEY envWithKey = Some [0x6B] \<and> [0x6B :: 16 word] \<noteq> [] \<and>
   delivered (endingAfter [textChunk catText]) = [textChunk catText] \<and>
   failure (endingAfter [textChunk catText]) = None \<and>
   chunk_text (textChunk catText) = Some catText \<and>
   groundingChunksOf (textChunk catText) = [] \<and>
   emitted (performSearchStream envWithKey [0x71] (endingAfter [textChunk catText]))
     = [Snapshot catSummary (Some catSuggestion) [], Done]"
proof -
  have h1: "GEMINI_API_KEY envWithKey = Some [0x6B]" by (simp add: envWithKey_def)
  have h2: "[0x6B :: 16 word] \<noteq> []" by simp
  have h3: "delivered (endingAfter [textChunk catText]) = [textChunk catText]"
    by (simp add: endingAfter_def)
  have h4: "failure (endingAfter [textChunk catText]) = None" by (simp add: endingAfter_def)
  have h5: "chunk_text (textChunk catText) = Some catText" by (simp add: textChunk_def)
  have h6: "groundingChunksOf (textChunk catText) = []" by (rule groundingChunksOf_textChunk)
  from h1 h2 h3 h4 h5 h6 cat_scenario [OF h1 h2 h3 h4 h5 h6, of "[0x71]"]
  show ?thesis by blast
qed

text \<open>
  Claim C10. A chunk without grounding chunks leaves the sources variable as it was, from
  any state: the snapshot after it lists the same sources as the snapshot before it.
\<close>

theorem no_citations_sources_unchanged:
  assumes "groundingChunksOf c = []"
  shows "sources (step s c) = sources s \<and>
         sources_of (snapshot (step s c)) = sources_of (snapshot s)"
  using assms by (simp add: sources_step extractSources_def snapshot_def)

theorem no_citations_sources_unchanged_witness:
  "groundingChunksOf (textChunk [0x61]) = [] \<and>
   sources (step (stateAfter [citingChunk [0x75] [0x41]]) (textChunk [0x61]))
     = [\<lparr>uri = [0x75], title = [0x41]\<rparr>] \<and>
   sources (stateAfter [citingChunk [0x75] [0x41]]) = [\<lparr>uri = [0x75], title = [0x41]\<rparr>]"
proof -
  have h: "groundingChunksOf (textChunk [0x61]) = []" by (rule groundingChunksOf_textChunk)
  have s: "sources (stateAfter [citingChunk [0x75] [0x41]]) = [\<lparr>uri = [0x75], title = [0x41]\<rparr>]"
    by code_simp
  from h s no_citations_sources_unchanged [OF h, of "stateAfter [citingChunk [0x75] [0x41]]"]
  show ?thesis by simp
qed

text \<open>
  Claim C9. Within one stream, every uri in the sources list of an emitted snapshot is also
  in the sources list of every later snapshot: a source, once cited, is never dropped.
\<close>

theorem cited_uris_never_dropped:
  assumes "GEMINI_API_KEY e = Some k" and "k \<noteq> []"
    and "i \<le> j" and "j < length (delivered up)"
  shows "set (map uri (sources_of (emitted (performSearchStream e q up) ! i)))
         \<subseteq> set (map uri (sources_of (emitted (performSearchStream e q up) ! j)))"
proof -
  let ?cs = "delivered up"
  from assms(3,4) have i: "i < length ?cs" by simp
  have uris: "set (map uri (sources_of (emitted (performSearchStream e q up) ! n)))
              = set (map uri (cited (take (Suc n) ?cs)))" if "n < length ?cs" for n
    using emitted_nth [OF assms(1,2) that, of q]
    by (simp only: sources_of_snapshot sources_stateAfter uri_mergeSources set_firstAppearance
        append_Nil)
  have "cited (take (Suc j) ?cs) =
        cited (take (Suc i) ?cs) @ cited (drop (Suc i) (take (Suc j) ?cs))"
    using take_Suc_le [OF assms(3), of ?cs] by (metis cited_append)
  then have "set (map uri (cited (take (Suc i) ?cs))) \<subseteq> set (map uri (cited (take (Suc j) ?cs)))"
    by auto
  then show ?thesis by (simp only: uris [OF i] uris [OF assms(4)])
qed

theorem cited_uris_never_dropped_witness:
  "GEMINI_API_KEY envWithKey = Some [0x6B] \<and> [0x6B :: 16 word] \<noteq> [] \<and> (0 :: nat) \<le> 1 \<and>
   1 < length (delivered (endingAfter [citingChunk [0x75] [0x41], citingChunk [0x76] [0x42]])) \<and>
   set (map uri (sources_of (emitted (performSearchStream envWithKey [0x71]
          (endingAfter [citingChunk [0x75] [0x41], citingChunk [0x76] [0x42]])) ! 0)))
   \<subseteq> set (map uri (sources_of (emitted (performSearchStream envWithKey [0x71]
          (endingAfter [citingChunk [0x75] [0x41], citingChunk [0x76] [0x42]])) ! 1)))"
proof -
  have h1: "GEMINI_API_KEY envWithKey = Some [0x6B]" by (simp add: envWithKey_def)
  have h2: "[0x6B :: 16 word] \<noteq> []" by simp
  have h3: "(0 :: nat) \<le> 1" by simp
  have h4: "1 < length (delivered (endingAfter [citingChunk [0x75] [0x41], citingChunk [0x76] [0x42]]))"
    by (simp add: endingAfter_def)
  from h1 h2 h3 h4 cited_uris_never_dropped [OF h1 h2 h3 h4, of "[0x71]"]
  show ?thesis by blast
qed

text \<open>
  Claim C8. The uris of each emitted sources list are the uris cited so far in the stream,
  each once, in the order of their first appearance; and each entry of the list is the most
  recent citation of its uri, so it carries the title of that occurrence.
\<close>

theorem sources_first_appearance_order:
  assumes "GEMINI_API_KEY e = Some k" and "k \<noteq> []" and "i < length (delivered up)"
  shows "map uri (sources_of (emitted (performSearchStream e q up) ! i))
           = firstAppearance (map uri (cited (take (Suc i) (delivered up)))) \<and>
         (\<forall>s \<in> set (sources_of (emitted (performSearchStream e q up) ! i)).
            mostRecent (cited (take (Suc i) (delivered up))) (uri s) = Some s)"
proof -
  have srcs: "sources_of (emitted (performSearchStream e q up) ! i)
              = mergeSources [] (cited (take (Suc i) (delivered up)))"
    using emitted_nth [OF assms, of q] by (simp only: sources_of_snapshot sources_stateAfter)
  show ?thesis
    unfolding srcs by (simp add: uri_mergeSources mostRecent_mergeSources)
qed

theorem sources_first_appearance_order_witness:
  "GEMINI_API_KEY envWithKey = Some [0x6B] \<and> [0x6B :: 16 word] \<noteq> [] \<and>
   2 < length (delivered (endingAfter
         [citingChunk [0x75] [0x41], citingChunk [0x76] [0x42], citingChunk [0x75] [0x43]])) \<and>
   sources_of (emitted (performSearchStream envWithKey [0x71] (endingAfter
         [citingChunk [0x75] [0x41], citingChunk [0x76] [0x42], citingChunk [0x75] [0x43]])) ! 2)
     = [\<lparr>uri = [0x75], title = [0x43]\<rparr>, \<lparr>uri = [0x76], title = [0x42]\<rparr>] \<and>
   map uri (sources_of (emitted (performSearchStream envWithKey [0x71] (endingAfter
         [citingChunk [0x75] [0x41], citingChunk [0x76] [0x42], citingChunk [0x75] [0x43]])) ! 2))
     = firstAppearance (map uri (cited (take (Suc 2) (delivered (endingAfter
         [citingChunk [0x75] [0x41], citingChunk [0x76] [0x42], citingChunk [0x75] [0x43]])))))"
proof -
  have h1: "GEMINI_API_KEY envWithKey = Some [0x6B]" by (simp add: envWithKey_def)
  have h2: "[0x6B :: 16 word] \<noteq> []" by simp
  have h3: "2 < length (delivered (endingAfter
         [citingChunk [0x75] [0x41], citingChunk [0x76] [0x42], citingChunk [0x75] [0x43]]))"
    by (simp add: endingAfter_def)
  have v: "sources_of (emitted (performSearchStream envWithKey [0x71] (endingAfter
         [citingChunk [0x75] [0x41], citingChunk [0x76] [0x42], citingChunk [0x75] [0x43]])) ! 2)
     = [\<lparr>uri = [0x75], title = [0x43]\<rparr>, \<lparr>uri = [0x76], title = [0x42]\<rparr>]"
    by code_simp
  from h1 h2 h3 v sources_first_appearance_order [OF h1 h2 h3, of "[0x71]"]
  show ?thesis by blast
qed

text \<open>
  Claim C5. In a stream of two chunks, each carrying exactly one web citation, with the same
  uri and different titles, the sources list of the final snapshot is the one citation of
  the later chunk: one entry for that uri, with the later title.
\<close>

theorem same_uri_later_title_wins:
  assumes "GEMINI_API_KEY e = Some k" and "k \<noteq> []"
    and "delivered up = [c1, c2]"
    and "newSources (groundingChunksOf c1) = [s1]"
    and "newSources (groundingChunksOf c2) = [s2]"
    and "uri s1 = uri s2" and "title s1 \<noteq> title s2"
  shows "sources_of (emitted (performSearchStream e q up) ! 1) = [s2]"
proof -
  have i: "1 < length (delivered up)" using assms(3) by simp
  have "cited (take (Suc 1) (delivered up)) = [s1, s2]"
    using assms(3-5) by (simp add: cited_def)
  then have "sources_of (emitted (performSearchStream e q up) ! 1) = mergeSources [] [s1, s2]"
    using emitted_nth [OF assms(1,2) i, of q]
    by (simp only: sources_of_snapshot sources_stateAfter)
  also have "\<dots> = [s2]"
    using assms(6) by (simp add: mergeSources_def new_Map_def map_values_def)
  finally show ?thesis .
qed

theorem same_uri_later_title_wins_witness:
  "GEMINI_API_KEY envWithKey = Some [0x6B] \<and> [0x6B :: 16 word] \<noteq> [] \<and>
   delivered (endingAfter [citingChunk [0x75] [0x41], citingChunk [0x75] [0x42]])
     = [citingChunk [0x75] [0x41], citingChunk [0x75] [0x42]] \<and>
   newSources (groundingChunksOf (citingChunk [0x75] [0x41])) = [\<lparr>uri = [0x75], title = [0x41]\<rparr>] \<and>
   newSources (groundingChunksOf (citingChunk [0x75] [0x42])) = [\<lparr>uri = [0x75], title = [0x42]\<rparr>] \<and>
   uri \<lparr>uri = [0x75], title = [0x41]\<rparr> = uri \<lparr>uri = [0x75], title = [0x42]\<rparr> \<and>
   title \<lparr>uri = [0x75], title = [0x41 :: 16 word]\<rparr> \<noteq> title \<lparr>uri = [0x75], title = [0x42]\<rparr> \<and>
   sources_of (emitted (performSearchStream envWithKey [0x71]
       (endingAfter [citingChunk [0x75] [0x41], citingChunk [0x75] [0x42]])) ! 1)
     = [\<lparr>uri = [0x75], title = [0x42]\<rparr>]"
proof -
  have h1: "GEMINI_API_KEY envWithKey = Some [0x6B]" by (simp add: envWithKey_def)
  have h2: "[0x6B :: 16 word] \<noteq> []" by simp
  have h3: "delivered (endingAfter [citingChunk [0x75] [0x41], citingChunk [0x75] [0x42]])
     = [citingChunk [0x75] [0x41], citingChunk [0x75] [0x42]]" by (simp add: endingAfter_def)
  have h4: "newSources (groundingChunksOf (citingChunk [0x75] [0x41])) = [\<lparr>uri = [0x75], title = [0x41]\<rparr>]"
    by (simp add: newSources_citingChunk)
  have h5: "newSources (groundingChunksOf (citingChunk [0x75] [0x42])) = [\<lparr>uri = [0x75], title = [0x42]\<rparr>]"
    by (simp add: newSources_citingChunk)
  have h6: "uri \<lparr>uri = [0x75], title = [0x41]\<rparr> = uri \<lparr>uri = [0x75], title = [0x42]\<rparr>" by simp
  have h7: "title \<lparr>uri = [0x75], title = [0x41 :: 16 word]\<rparr> \<noteq> title \<lparr>uri = [0x75], title = [0x42]\<rparr>"
    by simp
  from h1 h2 h3 h4 h5 h6 h7 same_uri_later_title_wins [OF h1 h2 h3 h4 h5 h6 h7, of "[0x71]"]
  show ?thesis by blast
qed

text \<open>
  Claim C2 as stated fails. A first chunk that is the marker followed by a line feed sets the
  suggestion of the first snapshot to the empty string, which is defined; the test
  \<^verbatim>\<open>!suggestion\<close> takes the empty string for unset, and the second snapshot still has
  the empty suggestion.
\<close>

theorem suggestion_empty_counterexample:
  "\<not> (suggestion_of (emitted (performSearchStream envWithKey [0x71]
          (endingAfter [textChunk (marker @ [0x0A]), textChunk [0x61]])) ! 0) \<noteq> None
      \<longrightarrow> suggestion_of (emitted (performSearchStream envWithKey [0x71]
          (endingAfter [textChunk (marker @ [0x0A]), textChunk [0x61]])) ! 1) \<noteq> None
        \<and> suggestion_of (emitted (performSearchStream envWithKey [0x71]
          (endingAfter [textChunk (marker @ [0x0A]), textChunk [0x61]])) ! 1) \<noteq> Some [])"
  by code_simp

text \<open>
  Claim C2, amended. Once the suggestion of an emitted snapshot is defined, no later snapshot
  of the stream has an undefined suggestion; and once it is a non-empty string, every later
  snapshot has that same suggestion.
\<close>

theorem suggestion_never_retracted:
  assumes "GEMINI_API_KEY e = Some k" and "k \<noteq> []"
    and "i \<le> j" and "j < length (delivered up)"
    and "suggestion_of (emitted (performSearchStream e q up) ! i) = Some x"
  shows "suggestion_of (emitted (performSearchStream e q up) ! j) \<noteq> None \<and>
         (x \<noteq> [] \<longrightarrow> suggestion_of (emitted (performSearchStream e q up) ! j) = Some x)"
proof -
  let ?cs = "delivered up"
  let ?si = "stateAfter (take (Suc i) ?cs)"
  let ?rest = "drop (Suc i) (take (Suc j) ?cs)"
  from assms(3,4) have i: "i < length ?cs" by simp
  have si: "suggestion ?si = Some x"
    using assms(5) emitted_nth [OF assms(1,2) i, of q] by (simp add: suggestion_of_snapshot)
  have "stateAfter (take (Suc j) ?cs) = foldl step ?si ?rest"
    using take_Suc_le [OF assms(3), of ?cs] by (metis stateAfter_append)
  then have sj: "suggestion_of (emitted (performSearchStream e q up) ! j)
                 = suggestion (foldl step ?si ?rest)"
    using emitted_nth [OF assms(1,2,4), of q] by (simp add: suggestion_of_snapshot)
  have "suggestion (foldl step ?si ?rest) \<noteq> None"
    by (rule suggestion_foldl_defined) (simp add: si)
  moreover have "suggestion (foldl step ?si ?rest) = Some x" if "x \<noteq> []"
    using si that by (rule suggestion_foldl_kept)
  ultimately show ?thesis by (simp add: sj)
qed

theorem suggestion_never_retracted_witness:
  "GEMINI_API_KEY envWithKey = Some [0x6B] \<and> [0x6B :: 16 word] \<noteq> [] \<and> (0 :: nat) \<le> 1 \<and>
   1 < length (delivered (endingAfter [textChunk catText, textChunk (0x0A # marker @ [0x62, 0x0A])])) \<and>
   suggestion_of (emitted (performSearchStream envWithKey [0x71]
      (endingAfter [textChunk catText, textChunk (0x0A # marker @ [0x62, 0x0A])])) ! 0)
     = Some catSuggestion \<and>
   catSuggestion \<noteq> [] \<and>
   suggestion_of (emitted (performSearchStream envWithKey [0x71]
      (endingAfter [textChunk catText, textChunk (0x0A # marker @ [0x62, 0x0A])])) ! 1)
     = Some catSuggestion"
proof -
  have h1: "GEMINI_API_KEY envWithKey = Some [0x6B]" by (simp add: envWithKey_def)
  have h2: "[0x6B :: 16 word] \<noteq> []" by simp
  have h3: "(0 :: nat) \<le> 1" by simp
  have h4: "1 < length (delivered (endingAfter [textChunk catText, textChunk (0x0A # marker @ [0x62, 0x0A])]))"
    by (simp add: endingAfter_def)
  have h5: "suggestion_of (emitted (performSearchStream envWithKey [0x71]
      (endingAfter [textChunk catText, textChunk (0x0A # marker @ [0x62, 0x0A])])) ! 0)
     = Some catSuggestion"
    by code_simp
  have h6: "catSuggestion \<noteq> []" by (simp add: catSuggestion_def)
  from h1 h2 h3 h4 h5 h6 suggestion_never_retracted [OF h1 h2 h3 h4 h5]
  show ?thesis by blast
qed

text \<open>
  Claim C7 as stated fails. The regular expression is not global, so only its first match is
  replaced: of two lines that start with the marker the second stays in the text, while the
  buffer with every such line removed is empty.
\<close>

theorem text_every_marker_line_counterexample:
  "text_of (emitted (performSearchStream envWithKey [0x71]
      (endingAfter [textChunk (marker @ [0x61, 0x0A] @ marker @ [0x62])])) ! 0) = marker @ [0x62] \<and>
   text_of (emitted (performSearchStream envWithKey [0x71]
      (endingAfter [textChunk (marker @ [0x61, 0x0A] @ marker @ [0x62])])) ! 0)
     \<noteq> everyMarkerLineRemoved (marker @ [0x61, 0x0A] @ marker @ [0x62])"
  by code_simp

text \<open>
  Claim C7, amended. The text of each emitted snapshot is the accumulated buffer in which
  the first line that starts with the marker has lost its content and kept its line
  terminator, trimmed; lines end at LF, CR, LS or PS, and later marker lines stay.
\<close>

theorem text_first_marker_line_blanked:
  assumes "GEMINI_API_KEY e = Some k" and "k \<noteq> []" and "i < length (delivered up)"
  shows "text_of (emitted (performSearchStream e q up) ! i) =
           trim (concat (blankFirstMarkerLine (lineSegments
             (concat (map chunkText (take (Suc i) (delivered up)))))))"
  using emitted_nth [OF assms, of q]
  by (simp only: text_of_snapshot fullText_stateAfter replaceMarkerLine_eq)

theorem text_first_marker_line_blanked_witness:
  "GEMINI_API_KEY envWithKey = Some [0x6B] \<and> [0x6B :: 16 word] \<noteq> [] \<and>
   0 < length (delivered (endingAfter [textChunk (marker @ [0x61, 0x0A] @ marker @ [0x62])])) \<and>
   text_of (emitted (performSearchStream envWithKey [0x71]
      (endingAfter [textChunk (marker @ [0x61, 0x0A] @ marker @ [0x62])])) ! 0) =
     trim (concat (blankFirstMarkerLine (lineSegments
       (concat (map chunkText (take (Suc 0)
          (delivered (endingAfter [textChunk (marker @ [0x61, 0x0A] @ marker @ [0x62])]))))))))"
proof -
  have h1: "GEMINI_API_KEY envWithKey = Some [0x6B]" by (simp add: envWithKey_def)
  have h2: "[0x6B :: 16 word] \<noteq> []" by simp
  have h3: "0 < length (delivered (endingAfter [textChunk (marker @ [0x61, 0x0A] @ marker @ [0x62])]))"
    by (simp add: endingAfter_def)
  from h1 h2 h3 text_first_marker_line_blanked [OF h1 h2 h3, of "[0x71]"]
  show ?thesis by blast
qed

end
